theory Spec2Isabelle
  imports Main
begin

section \<open>SiteBlocker: a focus-session blocker that edits the hosts file\<close>

text \<open>
  A shallow embedding of \<^verbatim>\<open>siteblocker.py\<close>. Files are modelled by their bytes, the
  printed output by the text written to standard output, and every \<^verbatim>\<open>sys.exit\<close> and
  uncaught exception by a value of type \<open>abort\<close>.

  Text. A Python string is represented by its UTF-8 encoding, a list of bytes.
  Concatenation, splitting at line ends and the search for an ASCII text act on the
  encoding as they act on the characters. The bytes of a file that are not
  well-formed UTF-8 do not decode. Of the strings that reach the program otherwise
  (the values of the configuration, the words of the command line), one that is not
  well-formed UTF-8 stands for a string with lone surrogates, which cannot be
  encoded.

  Environment. The process runs on a POSIX system in a UTF-8 locale: files opened in
  text mode and standard output are UTF-8, and a newline is written as it is. The file
  \<^verbatim>\<open>/etc/hosts\<close> exists, the lock file can be created, read and removed, and
  standard output takes what is printed to it.
\<close>

subsection \<open>Python text primitives\<close>

abbreviation LF :: char where "LF \<equiv> CHR 0x0A"
abbreviation CR :: char where "CR \<equiv> CHR 0x0D"

text \<open>\<^verbatim>\<open>s.startswith(m)\<close> and the substring test \<^verbatim>\<open>m in s\<close> on strings.\<close>

fun startswith :: "string \<Rightarrow> string \<Rightarrow> bool" where
  "startswith s [] = True"
| "startswith [] (m # ms) = False"
| "startswith (c # cs) (m # ms) = (c = m \<and> startswith cs ms)"

fun str_in :: "string \<Rightarrow> string \<Rightarrow> bool" where
  "str_in m [] = (m = [])"
| "str_in m (c # cs) = (startswith (c # cs) m \<or> str_in m cs)"

text \<open>\<^verbatim>\<open>str(n)\<close> for a Python integer: decimal digits, a minus sign when negative.\<close>

definition digit :: "nat \<Rightarrow> char" where
  "digit n = ''0123456789'' ! (n mod 10)"

function str_nat :: "nat \<Rightarrow> string" where
  "str_nat n = (if n < 10 then [digit n] else str_nat (n div 10) @ [digit (n mod 10)])"
  by pat_completeness auto
termination
  by (relation "measure id") auto

declare str_nat.simps [simp del]

definition str_int :: "int \<Rightarrow> string" where
  "str_int i = (if i < 0 then ''-'' @ str_nat (nat (- i)) else str_nat (nat i))"

text \<open>
  Well-formed UTF-8, as the strict decoder and encoder of Python have it: one to four
  bytes for a character, no overlong form, no surrogate, nothing above U+10FFFF.
\<close>

definition byte :: "char \<Rightarrow> nat" where
  "byte c = of_char c"

definition continuation :: "char \<Rightarrow> bool" where
  "continuation c = (0x80 \<le> byte c \<and> byte c \<le> 0xBF)"

fun utf8 :: "string \<Rightarrow> bool" where
  "utf8 [] = True"
| "utf8 [a] = (byte a < 0x80)"
| "utf8 [a, b] =
     (if byte a < 0x80 then utf8 [b]
      else 0xC2 \<le> byte a \<and> byte a \<le> 0xDF \<and> continuation b)"
| "utf8 [a, b, c] =
     (if byte a < 0x80 then utf8 [b, c]
      else if 0xC2 \<le> byte a \<and> byte a \<le> 0xDF then continuation b \<and> utf8 [c]
      else 0xE0 \<le> byte a \<and> byte a \<le> 0xEF \<and> continuation b \<and> continuation c
           \<and> (byte a = 0xE0 \<longrightarrow> 0xA0 \<le> byte b) \<and> (byte a = 0xED \<longrightarrow> byte b \<le> 0x9F))"
| "utf8 (a # b # c # d # s) =
     (if byte a < 0x80 then utf8 (b # c # d # s)
      else if 0xC2 \<le> byte a \<and> byte a \<le> 0xDF then continuation b \<and> utf8 (c # d # s)
      else if 0xE0 \<le> byte a \<and> byte a \<le> 0xEF then
        continuation b \<and> continuation c
        \<and> (byte a = 0xE0 \<longrightarrow> 0xA0 \<le> byte b) \<and> (byte a = 0xED \<longrightarrow> byte b \<le> 0x9F)
        \<and> utf8 (d # s)
      else 0xF0 \<le> byte a \<and> byte a \<le> 0xF4 \<and> continuation b \<and> continuation c \<and> continuation d
           \<and> (byte a = 0xF0 \<longrightarrow> 0x90 \<le> byte b) \<and> (byte a = 0xF4 \<longrightarrow> byte b \<le> 0x8F)
           \<and> utf8 s)"

subsection \<open>Duration formatting\<close>

text \<open>
  \<^verbatim>\<open>format_duration\<close> takes a \<^verbatim>\<open>timedelta\<close>; here it is given by
  \<^verbatim>\<open>total_seconds = int(duration.total_seconds())\<close>, a Python integer.
  \<^verbatim>\<open>divmod\<close> rounds towards minus infinity, as \<open>div\<close> and \<open>mod\<close> on \<open>int\<close> do.
\<close>

definition format_duration :: "int \<Rightarrow> string" where
  "format_duration total_seconds =
     (let hours = total_seconds div 3600; remainder = total_seconds mod 3600;
          minutes = remainder div 60; seconds = remainder mod 60
      in if hours > 0 then str_int hours @ ''h '' @ str_int minutes @ ''m '' @ str_int seconds @ ''s''
         else if minutes > 0 then str_int minutes @ ''m '' @ str_int seconds @ ''s''
         else str_int seconds @ ''s'')"

text \<open>
  The formatting rule in the words of the specification: the units hours and minutes,
  most significant first, with the leading zero-valued ones dropped, then the seconds.
\<close>

definition spec_format_duration :: "int \<Rightarrow> string" where
  "spec_format_duration t =
     (let h = t div 3600; m = (t - h * 3600) div 60; s = t - h * 3600 - m * 60;
          units = dropWhile (\<lambda>(v, u). v = 0) [(h, ''h''), (m, ''m'')]
      in concat (map (\<lambda>(v, u). str_int v @ u @ '' '') units) @ str_int s @ ''s'')"

subsection \<open>Reading and writing text files\<close>

text \<open>
  A file opened in text mode is read with universal newlines: \<^verbatim>\<open>\r\n\<close> and a lone
  \<^verbatim>\<open>\r\<close> arrive as \<^verbatim>\<open>\n\<close>.
\<close>

fun universal_newlines :: "string \<Rightarrow> string" where
  "universal_newlines [] = []"
| "universal_newlines [c] = [if c = CR then LF else c]"
| "universal_newlines (c # d # ds) =
     (if c = CR \<and> d = LF then LF # universal_newlines ds
      else (if c = CR then LF else c) # universal_newlines (d # ds))"

text \<open>
  \<^verbatim>\<open>f.readlines()\<close>: the lines of the text, each with its terminating newline; the
  last one has none when the text does not end in a newline.
\<close>

fun readlines :: "string \<Rightarrow> string list" where
  "readlines [] = []"
| "readlines (c # cs) =
     (if c = LF then [LF] # readlines cs
      else (case readlines cs of [] \<Rightarrow> [[c]] | l # ls \<Rightarrow> (c # l) # ls))"

text \<open>\<^verbatim>\<open>f.writelines(lines)\<close> writes the strings one after the other.\<close>

definition writelines :: "string list \<Rightarrow> string" where
  "writelines lines = concat lines"

subsection \<open>Ways to end\<close>

text \<open>
  A call ends normally, with \<^verbatim>\<open>sys.exit(n)\<close>, or with an exception that nothing
  catches, named here by its class; the interpreter turns the latter into exit
  status 1.
\<close>

datatype abort = SysExit nat | Uncaught string

fun exit_status :: "abort \<Rightarrow> nat" where
  "exit_status (SysExit n) = n"
| "exit_status (Uncaught e) = 1"

subsection \<open>The managed block\<close>

definition MARKER_START :: string where
  "MARKER_START = ''# SiteBlocker START''"

definition MARKER_END :: string where
  "MARKER_END = ''# SiteBlocker END''"

text \<open>
  The loop of \<^verbatim>\<open>remove_blocker_entries\<close>: its state is the list \<^verbatim>\<open>result\<close> and the
  flag \<^verbatim>\<open>in_blocker_section\<close>; each \<^verbatim>\<open>continue\<close> leaves the list as it is.
\<close>

definition remove_step :: "string \<Rightarrow> string list \<times> bool \<Rightarrow> string list \<times> bool" where
  "remove_step line st =
     (case st of (result, in_blocker_section) \<Rightarrow>
        if str_in MARKER_START line then (result, True)
        else if str_in MARKER_END line then (result, False)
        else if \<not> in_blocker_section then (result @ [line], in_blocker_section)
        else (result, in_blocker_section))"

definition remove_blocker_entries :: "string list \<Rightarrow> string list" where
  "remove_blocker_entries lines = fst (fold remove_step lines ([], False))"

text \<open>
  The configuration is whatever JSON value the file holds. Only an object has the
  \<^verbatim>\<open>get\<close> that the program calls; of its keys the program reads \<^verbatim>\<open>redirect_ip\<close> and
  \<^verbatim>\<open>blocklist\<close>, each of which may be absent. The program formats the redirect
  address and each domain into a line, and iterates over the blocklist and takes its
  length. A value is represented by what these operations make of it: the redirect
  address and each domain by the text that formatting renders (for a string, the
  string), the blocklist by the items that iterating over it yields (of a list its
  elements, of a string its characters, of an object its keys), or as a value that
  is not iterable and has no length (a number, a boolean, null).
\<close>

datatype blocklist_value = Items "string list" | NotIterable

record config =
  redirect_ip :: "string option"
  blocklist :: "blocklist_value option"

datatype parsed = NotObject | Object config

definition get_redirect_ip :: "config \<Rightarrow> string" where
  "get_redirect_ip c = (case redirect_ip c of None \<Rightarrow> ''127.0.0.1'' | Some r \<Rightarrow> r)"

definition get_blocklist :: "config \<Rightarrow> blocklist_value" where
  "get_blocklist c = (case blocklist c of None \<Rightarrow> Items [] | Some b \<Rightarrow> b)"

definition add_blocker_entries :: "parsed \<Rightarrow> string list \<Rightarrow> abort + string list" where
  "add_blocker_entries cfg lines0 =
     (let lines1 = remove_blocker_entries lines0;
          lines2 = lines1 @ [[LF] @ MARKER_START @ [LF]]
      in case cfg of
           NotObject \<Rightarrow> Inl (Uncaught ''AttributeError'')
         | Object c \<Rightarrow>
             (let ip = get_redirect_ip c
              in case get_blocklist c of
                   NotIterable \<Rightarrow> Inl (Uncaught ''TypeError'')
                 | Items domains \<Rightarrow>
                     Inr (fold (\<lambda>domain ls. ls @ [ip @ '' '' @ domain @ [LF]]) domains lines2
                          @ [MARKER_END @ [LF]])))"

text \<open>\<^verbatim>\<open>len(self.config.get('blocklist', []))\<close>.\<close>

definition blocked_count :: "parsed \<Rightarrow> abort + nat" where
  "blocked_count cfg =
     (case cfg of
        NotObject \<Rightarrow> Inl (Uncaught ''AttributeError'')
      | Object c \<Rightarrow>
          (case get_blocklist c of
             NotIterable \<Rightarrow> Inl (Uncaught ''TypeError'')
           | Items domains \<Rightarrow> Inr (length domains)))"

subsection \<open>The files and the process\<close>

text \<open>
  The configuration file is missing, cannot be loaded (opening, decoding or parsing
  it raises), or holds a JSON value. The lock file holds the text that \<^verbatim>\<open>activate\<close>
  wrote, represented by what \<^verbatim>\<open>datetime.fromisoformat\<close> makes of it: a start time, or
  the message of the exception that reading and parsing it raises. The clock \<open>now\<close>
  and the start time count whole seconds, so that their difference is the
  \<^verbatim>\<open>total_seconds\<close> that \<^verbatim>\<open>format_duration\<close> renders. \<open>hosts_file\<close> holds the bytes
  of \<^verbatim>\<open>/etc/hosts\<close>. \<open>hosts_readable\<close> and \<open>hosts_writable\<close> say whether opening it
  for reading and for writing is permitted; when it is not, \<^verbatim>\<open>open\<close> raises
  \<^verbatim>\<open>PermissionError\<close> and leaves the file as it is.
\<close>

datatype config_file = Missing | Malformed | Parsed parsed

datatype lock_content = Stamp int | Unparsable string

record world =
  config_src :: config_file
  config_path :: string
  hosts_file :: string
  hosts_readable :: bool
  hosts_writable :: bool
  lock_file :: "lock_content option"
  now :: int
  stdout :: string

definition print :: "string \<Rightarrow> world \<Rightarrow> world" where
  "print s w = w\<lparr>stdout := stdout w @ s @ [LF]\<rparr>"



definition is_active :: "world \<Rightarrow> bool" where
  "is_active w = (lock_file w \<noteq> None)"

definition get_active_duration :: "world \<Rightarrow> int \<times> world" where
  "get_active_duration w =
     (if \<not> is_active w then (0, w)
      else (case lock_file w of
              Some (Stamp start_time) \<Rightarrow> (now w - start_time, w)
            | Some (Unparsable e) \<Rightarrow> (0, print (''Error reading lock file: '' @ e) w)
            | None \<Rightarrow> (0, w)))"

definition sudo_message :: string where
  "sudo_message = ''Error: Need sudo privileges to modify /etc/hosts''"

text \<open>
  \<^verbatim>\<open>read_hosts\<close> catches the \<^verbatim>\<open>PermissionError\<close> of \<^verbatim>\<open>open\<close> only: bytes that do
  not decode end the process with a \<^verbatim>\<open>UnicodeDecodeError\<close>.
\<close>

definition read_hosts :: "world \<Rightarrow> (abort + string list) \<times> world" where
  "read_hosts w =
     (if \<not> hosts_readable w then (Inl (SysExit 1), print sudo_message w)
      else if \<not> utf8 (hosts_file w) then (Inl (Uncaught ''UnicodeDecodeError''), w)
      else (Inr (readlines (universal_newlines (hosts_file w))), w))"

text \<open>
  \<^verbatim>\<open>write_hosts\<close>: opening the file for writing empties it; the lines are encoded
  one by one, and a line that cannot be encoded raises a \<^verbatim>\<open>UnicodeEncodeError\<close>
  that nothing catches, after the lines before it, which reach the file when it is
  closed.
\<close>

definition write_hosts :: "string list \<Rightarrow> world \<Rightarrow> (abort + unit) \<times> world" where
  "write_hosts lines w =
     (if \<not> hosts_writable w then (Inl (SysExit 1), print sudo_message w)
      else if list_all utf8 lines then (Inr (), w\<lparr>hosts_file := writelines lines\<rparr>)
      else (Inl (Uncaught ''UnicodeEncodeError''),
            w\<lparr>hosts_file := writelines (takeWhile utf8 lines)\<rparr>))"

definition check_mark :: string where
  "check_mark = [CHR 0xE2, CHR 0x9C, CHR 0x93]"

definition activate :: "parsed \<Rightarrow> world \<Rightarrow> (abort + unit) \<times> world" where
  "activate cfg w =
     (if is_active w then
        (case get_active_duration w of (duration, w1) \<Rightarrow>
           (Inr (), print (''SiteBlocker is already active (running for ''
                             @ format_duration duration @ '')'') w1))
      else
        (let w1 = print ''Activating SiteBlocker...'' w;
             w2 = w1\<lparr>lock_file := Some (Stamp (now w1))\<rparr>
         in case read_hosts w2 of
              (Inl a, w3) \<Rightarrow> (Inl a, w3)
            | (Inr lines, w3) \<Rightarrow>
                (case add_blocker_entries cfg lines of
                   Inl a \<Rightarrow> (Inl a, w3)
                 | Inr new_lines \<Rightarrow>
                     (case write_hosts new_lines w3 of
                        (Inl a, w4) \<Rightarrow> (Inl a, w4)
                      | (Inr u, w4) \<Rightarrow>
                          (let w5 = print (check_mark @ '' SiteBlocker activated!'') w4
                           in case blocked_count cfg of
                                Inl a \<Rightarrow> (Inl a, w5)
                              | Inr n \<Rightarrow>
                                  (Inr (),
                                   print ([LF] @ ''Press Ctrl+C to deactivate'')
                                     (print (''Blocking '' @ str_nat n @ '' domains'') w5)))))))"

definition deactivate :: "world \<Rightarrow> (abort + unit) \<times> world" where
  "deactivate w =
     (if \<not> is_active w then (Inr (), print ''SiteBlocker is not active'' w)
      else
        (case get_active_duration w of (duration, w1) \<Rightarrow>
           (let w2 = print (''Deactivating SiteBlocker (was active for ''
                              @ format_duration duration @ '')...'') w1
            in case read_hosts w2 of
                 (Inl a, w3) \<Rightarrow> (Inl a, w3)
               | (Inr lines, w3) \<Rightarrow>
                   (case write_hosts (remove_blocker_entries lines) w3 of
                      (Inl a, w4) \<Rightarrow> (Inl a, w4)
                    | (Inr u, w4) \<Rightarrow>
                        (let w5 = (if lock_file w4 \<noteq> None then w4\<lparr>lock_file := None\<rparr> else w4)
                         in (Inr (), print (check_mark @ '' SiteBlocker deactivated!'') w5))))))"







subsection \<open>The command line\<close>






subsection \<open>Notions used by the properties\<close>

text \<open>The lines of the hosts file as the program reads them.\<close>

definition hosts_lines :: "string \<Rightarrow> string list" where
  "hosts_lines content = readlines (universal_newlines content)"

text \<open>A line that one of the two tests of the removal loop recognises.\<close>

definition has_marker :: "string \<Rightarrow> bool" where
  "has_marker line = (str_in MARKER_START line \<or> str_in MARKER_END line)"

text \<open>
  The removal pass as the specification describes it: a linear scan with the flag
  ``inside managed block'', over a test for start-marker lines and one for end-marker
  lines.
\<close>

fun spec_scan :: "(string \<Rightarrow> bool) \<Rightarrow> (string \<Rightarrow> bool) \<Rightarrow> bool \<Rightarrow> string list \<Rightarrow> string list" where
  "spec_scan is_start is_end inside [] = []"
| "spec_scan is_start is_end inside (line # rest) =
     (if is_start line then spec_scan is_start is_end True rest
      else if is_end line then spec_scan is_start is_end False rest
      else if inside then spec_scan is_start is_end inside rest
      else line # spec_scan is_start is_end inside rest)"

text \<open>A line that is exactly the marker text, with or without its line terminator.\<close>

definition is_marker_line :: "string \<Rightarrow> string \<Rightarrow> bool" where
  "is_marker_line marker line = (line = marker \<or> line = marker @ [LF])"

text \<open>
  The line generated for a domain, and the pairs of redirect address and domain whose
  generated line is a single line of encodable text without marker text.
\<close>

definition entry_line :: "string \<Rightarrow> string \<Rightarrow> string" where
  "entry_line ip domain = ip @ '' '' @ domain @ [LF]"

definition clean_entry :: "string \<Rightarrow> string \<Rightarrow> bool" where
  "clean_entry ip domain =
     (LF \<notin> set (ip @ domain) \<and> CR \<notin> set (ip @ domain)
      \<and> \<not> has_marker (ip @ '' '' @ domain)
      \<and> utf8 ip \<and> utf8 domain)"

text \<open>The managed block that activation appends, as text.\<close>

definition managed_block :: "string \<Rightarrow> string list \<Rightarrow> string" where
  "managed_block ip domains =
     [LF] @ MARKER_START @ [LF] @ concat (map (entry_line ip) domains) @ MARKER_END @ [LF]"

text \<open>
  Line lists as \<^verbatim>\<open>readlines\<close> produces them: every line but the last ends in its
  only newline, the last one may lack it.
\<close>

definition full_line :: "string \<Rightarrow> bool" where
  "full_line l = (l \<noteq> [] \<and> last l = LF \<and> LF \<notin> set (butlast l))"

definition partial_line :: "string \<Rightarrow> bool" where
  "partial_line l = (l \<noteq> [] \<and> LF \<notin> set l)"

fun canonical :: "string list \<Rightarrow> bool" where
  "canonical [] = True"
| "canonical [l] = (full_line l \<or> partial_line l)"
| "canonical (l # k # ls) = (full_line l \<and> canonical (k # ls))"

text \<open>The removal pass with the tests the code makes: the marker text occurs in the line.\<close>

abbreviation scan :: "bool \<Rightarrow> string list \<Rightarrow> string list" where
  "scan \<equiv> spec_scan (str_in MARKER_START) (str_in MARKER_END)"

text \<open>Two worlds with the same files and the same rights on them.\<close>

definition same_files :: "world \<Rightarrow> world \<Rightarrow> bool" where
  "same_files w w' =
     (config_src w' = config_src w \<and> hosts_file w' = hosts_file w
      \<and> hosts_readable w' = hosts_readable w \<and> hosts_writable w' = hosts_writable w
      \<and> lock_file w' = lock_file w)"

text \<open>
  The hosts file can be rewritten: it may be opened for reading, its bytes decode,
  and it may be opened for writing.
\<close>

definition hosts_usable :: "world \<Rightarrow> bool" where
  "hosts_usable w = (hosts_readable w \<and> utf8 (hosts_file w) \<and> hosts_writable w)"

text \<open>
  The configuration has a blocklist that can be counted: it is an object whose
  blocklist, when present, is iterable. It can be written when, moreover, every
  generated line can be encoded.
\<close>

definition config_countable :: "parsed \<Rightarrow> bool" where
  "config_countable cfg = (case blocked_count cfg of Inl a \<Rightarrow> False | Inr n \<Rightarrow> True)"

definition config_writable :: "parsed \<Rightarrow> bool" where
  "config_writable cfg =
     (case cfg of
        NotObject \<Rightarrow> False
      | Object c \<Rightarrow>
          (case get_blocklist c of
             NotIterable \<Rightarrow> False
           | Items domains \<Rightarrow> list_all utf8 (map (entry_line (get_redirect_ip c)) domains)))"

text \<open>
  The scenario of the specification: redirect address \<^verbatim>\<open>0.0.0.0\<close>, two domains, an
  empty hosts file, no session, and the rights to read and write the hosts file.
\<close>

definition scenario_object :: config where
  "scenario_object = \<lparr>redirect_ip = Some ''0.0.0.0'', blocklist = Some (Items [''a.com'', ''b.com''])\<rparr>"

definition scenario_config :: parsed where
  "scenario_config =
     Object \<lparr>redirect_ip = Some ''0.0.0.0'', blocklist = Some (Items [''a.com'', ''b.com''])\<rparr>"

definition scenario_world :: world where
  "scenario_world =
     \<lparr>config_src = Parsed scenario_config, config_path = ''config.json'', hosts_file = [],
      hosts_readable = True, hosts_writable = True, lock_file = None, now = 0, stdout = []\<rparr>"



section \<open>Lemmas\<close>

subsection \<open>Substrings\<close>

lemma startswith_iff: "startswith s m \<longleftrightarrow> (\<exists>q. s = m @ q)"
  by (induction s m rule: startswith.induct) auto

lemma str_in_iff: "str_in m s \<longleftrightarrow> (\<exists>p q. s = p @ m @ q)"
proof (induction s)
  case Nil
  then show ?case by auto
next
  case (Cons c cs)
  show ?case
  proof
    assume "str_in m (c # cs)"
    then consider "startswith (c # cs) m" | "str_in m cs" by auto
    then show "\<exists>p q. c # cs = p @ m @ q"
    proof cases
      case 1
      then obtain q where "c # cs = m @ q" by (auto simp: startswith_iff)
      then have "c # cs = [] @ m @ q" by simp
      then show ?thesis by blast
    next
      case 2
      then obtain p q where "cs = p @ m @ q" using Cons.IH by blast
      then have "c # cs = (c # p) @ m @ q" by simp
      then show ?thesis by blast
    qed
  next
    assume "\<exists>p q. c # cs = p @ m @ q"
    then obtain p q where pq: "c # cs = p @ m @ q" by blast
    show "str_in m (c # cs)"
    proof (cases p)
      case Nil
      with pq have "startswith (c # cs) m" by (auto simp: startswith_iff)
      then show ?thesis by simp
    next
      case (Cons a p')
      with pq have "cs = p' @ m @ q" by simp
      then have "str_in m cs" using Cons.IH by blast
      then show ?thesis by simp
    qed
  qed
qed

lemma str_in_snoc:
  assumes "c \<notin> set m" "m \<noteq> []"
  shows "str_in m (s @ [c]) = str_in m s"
proof
  assume "str_in m (s @ [c])"
  then obtain p q where pq: "s @ [c] = p @ m @ q" by (auto simp: str_in_iff)
  show "str_in m s"
  proof (cases q rule: rev_cases)
    case Nil
    with pq have "s @ [c] = p @ m" by simp
    with assms have False
      by (metis append_butlast_last_id append_is_Nil_conv last_appendR last_in_set last_snoc)
    then show ?thesis ..
  next
    case (snoc q' x)
    with pq have "s @ [c] = (p @ m @ q') @ [x]" by simp
    then have "s = p @ m @ q'" by simp
    then show ?thesis by (auto simp: str_in_iff)
  qed
next
  assume "str_in m s"
  then obtain p q where "s = p @ m @ q" by (auto simp: str_in_iff)
  then have "s @ [c] = p @ m @ (q @ [c])" by simp
  then show "str_in m (s @ [c])" unfolding str_in_iff by blast
qed

subsection \<open>Lines\<close>

lemma concat_readlines: "concat (readlines s) = s"
  by (induction s) (auto split: list.splits)

lemma readlines_Nil_iff: "readlines s = [] \<longleftrightarrow> s = []"
  by (cases s) (auto split: list.splits)

lemma readlines_line: "LF \<notin> set l \<Longrightarrow> readlines (l @ LF # t) = (l @ [LF]) # readlines t"
  by (induction l) auto

lemma readlines_partial: "LF \<notin> set p \<Longrightarrow> p \<noteq> [] \<Longrightarrow> readlines p = [p]"
proof (induction p)
  case Nil
  then show ?case by simp
next
  case (Cons a p)
  then show ?case by (cases "p = []") auto
qed

lemma universal_newlines_id: "CR \<notin> set s \<Longrightarrow> universal_newlines s = s"
  by (induction s rule: universal_newlines.induct) auto

lemma universal_newlines_no_CR: "CR \<notin> set (universal_newlines s)"
  by (induction s rule: universal_newlines.induct) auto

subsection \<open>The removal pass\<close>

lemma fold_remove_step: "fst (fold remove_step ls (r, b)) = r @ scan b ls"
  by (induction ls arbitrary: r b) (simp_all add: remove_step_def)

lemma remove_blocker_entries_scan: "remove_blocker_entries ls = scan False ls"
  by (simp add: remove_blocker_entries_def fold_remove_step)

lemma scan_subset: "l \<in> set (spec_scan p q b ls) \<Longrightarrow> l \<in> set ls \<and> \<not> p l \<and> \<not> q l"
  by (induction ls arbitrary: b) (auto split: if_splits)

lemma scan_keep: "\<forall>l\<in>set xs. \<not> p l \<and> \<not> q l \<Longrightarrow> spec_scan p q False (xs @ ys) = xs @ spec_scan p q False ys"
  by (induction xs) auto

lemma scan_inside_drop: "\<forall>l\<in>set xs. \<not> q l \<Longrightarrow> spec_scan p q True xs = []"
  by (induction xs) auto

lemma scan_unterminated:
  "p l \<Longrightarrow> \<forall>x\<in>set post. \<not> q x \<Longrightarrow> spec_scan p q b (pre @ l # post) = spec_scan p q b pre"
  by (induction pre arbitrary: b) (auto simp: scan_inside_drop)

lemma full_lineI: "LF \<notin> set b \<Longrightarrow> full_line (b @ [LF])"
  by (simp add: full_line_def)

lemma full_lineE: "full_line l \<Longrightarrow> \<exists>b. l = b @ [LF] \<and> LF \<notin> set b"
  unfolding full_line_def by (metis append_butlast_last_id)

lemma readlines_full: "full_line l \<Longrightarrow> readlines (l @ t) = l # readlines t"
  using full_lineE readlines_line by fastforce

lemma readlines_full_lines: "\<forall>l\<in>set ls. full_line l \<Longrightarrow> readlines (concat ls @ t) = ls @ readlines t"
  by (induction ls) (auto simp: readlines_full)

lemma readlines_append_LF: "readlines (s @ LF # t) = readlines (s @ [LF]) @ readlines t"
proof (induction s)
  case Nil
  then show ?case by simp
next
  case (Cons c s)
  have ne: "readlines (s @ [LF]) \<noteq> []" by (simp add: readlines_Nil_iff)
  show ?case
  proof (cases "c = LF")
    case True
    then show ?thesis using Cons by simp
  next
    case False
    then show ?thesis using Cons ne by (auto split: list.splits)
  qed
qed

lemma canonical_readlines: "canonical (readlines s)"
proof (induction s)
  case Nil
  then show ?case by simp
next
  case (Cons c s)
  show ?case
  proof (cases "c = LF")
    case True
    have "full_line [LF]" by (simp add: full_line_def)
    then show ?thesis using True Cons by (cases "readlines s") auto
  next
    case False
    show ?thesis
    proof (cases "readlines s")
      case Nil
      then show ?thesis using False by (simp add: partial_line_def)
    next
      case (Cons l ls)
      have "full_line l \<Longrightarrow> full_line (c # l)" using False by (auto simp: full_line_def)
      moreover have "partial_line l \<Longrightarrow> partial_line (c # l)" using False by (auto simp: partial_line_def)
      ultimately show ?thesis using Cons False Cons.IH by (cases ls) auto
    qed
  qed
qed

lemma canonical_tl: "canonical (l # ls) \<Longrightarrow> canonical ls"
  by (cases ls) auto

lemma canonical_Cons: "full_line l \<Longrightarrow> canonical ls \<Longrightarrow> canonical (l # ls)"
  by (cases ls) auto

lemma canonical_hd: "canonical (l # ls) \<Longrightarrow> ls \<noteq> [] \<Longrightarrow> full_line l"
  by (cases ls) auto

lemma canonical_scan: "canonical ls \<Longrightarrow> canonical (spec_scan p q b ls)"
proof (induction ls arbitrary: b)
  case Nil
  then show ?case by simp
next
  case (Cons l ls)
  have tl: "canonical ls" using Cons.prems canonical_tl by blast
  show ?case
  proof (cases "ls = []")
    case True
    then show ?thesis using Cons.prems by auto
  next
    case False
    then have "full_line l" using Cons.prems canonical_hd by blast
    then show ?thesis using Cons.IH[OF tl] by (auto intro: canonical_Cons)
  qed
qed


lemma has_marker_snoc_LF: "has_marker (p @ [LF]) = has_marker p"
  by (simp add: has_marker_def str_in_snoc MARKER_START_def MARKER_END_def)

lemma readlines_separator:
  "canonical ls \<Longrightarrow> \<forall>l\<in>set ls. \<not> has_marker l \<Longrightarrow>
   \<forall>l\<in>set (readlines (concat ls @ [LF])). \<not> has_marker l"
proof (induction ls rule: canonical.induct)
  case 1
  then show ?case by (simp add: has_marker_def MARKER_START_def MARKER_END_def)
next
  case (2 l)
  have nl: "\<not> has_marker [LF]" by (simp add: has_marker_def MARKER_START_def MARKER_END_def)
  from 2 consider "full_line l" | "partial_line l" by auto
  then show ?case
  proof cases
    case 1
    then show ?thesis using 2 nl readlines_full[of l "[LF]"] by simp
  next
    case 2
    then have "readlines (l @ [LF]) = [l @ [LF]]"
      using readlines_line[of l "[]"] by (simp add: partial_line_def)
    then show ?thesis using "2.prems" by (simp add: has_marker_snoc_LF)
  qed
next
  case (3 l k ls)
  then show ?case using readlines_full[of l "concat (k # ls) @ [LF]"] by simp
qed

subsection \<open>Well-formed text\<close>

lemma utf8_Cons:
  "utf8 (a # s) =
     (if byte a < 0x80 then utf8 s
      else if 0xC2 \<le> byte a \<and> byte a \<le> 0xDF then (\<exists>b t. s = b # t \<and> continuation b \<and> utf8 t)
      else if 0xE0 \<le> byte a \<and> byte a \<le> 0xEF then
        (\<exists>b c t. s = b # c # t \<and> continuation b \<and> continuation c
           \<and> (byte a = 0xE0 \<longrightarrow> 0xA0 \<le> byte b) \<and> (byte a = 0xED \<longrightarrow> byte b \<le> 0x9F) \<and> utf8 t)
      else 0xF0 \<le> byte a \<and> byte a \<le> 0xF4
           \<and> (\<exists>b c d t. s = b # c # d # t \<and> continuation b \<and> continuation c \<and> continuation d
                 \<and> (byte a = 0xF0 \<longrightarrow> 0x90 \<le> byte b) \<and> (byte a = 0xF4 \<longrightarrow> byte b \<le> 0x8F)
                 \<and> utf8 t))"
proof (cases s)
  case Nil
  then show ?thesis by simp
next
  case s1: (Cons b s')
  show ?thesis
  proof (cases s')
    case Nil
    then show ?thesis using s1 by auto
  next
    case s2: (Cons c s'')
    show ?thesis
    proof (cases s'')
      case Nil
      then show ?thesis using s1 s2 by auto
    next
      case (Cons d t)
      then show ?thesis using s1 s2 by auto
    qed
  qed
qed

lemma utf8_ascii_Cons: "byte a < 0x80 \<Longrightarrow> utf8 (a # s) = utf8 s"
  by (simp add: utf8_Cons)

lemma utf8_append: "utf8 a \<Longrightarrow> utf8 b \<Longrightarrow> utf8 (a @ b)"
proof (induction "length a" arbitrary: a rule: less_induct)
  case less
  show ?case
  proof (cases a)
    case Nil
    then show ?thesis using less.prems by simp
  next
    case (Cons x s)
    have ih: "\<And>t. length t < length a \<Longrightarrow> utf8 t \<Longrightarrow> utf8 (t @ b)"
      using less.hyps less.prems(2) by blast
    have u: "utf8 (x # s)" using less.prems(1) Cons by simp
    show ?thesis
      using u ih unfolding Cons append_Cons utf8_Cons[of x s] utf8_Cons[of x "s @ b"]
      by (auto split: if_splits)
  qed
qed

lemma utf8_split:
  "byte x < 0x80 \<Longrightarrow> utf8 (l @ x # t) \<Longrightarrow> utf8 l \<and> utf8 t"
proof (induction "length l" arbitrary: l rule: less_induct)
  case less
  show ?case
  proof (cases l)
    case Nil
    then show ?thesis using less.prems by (simp add: utf8_ascii_Cons)
  next
    case (Cons a s)
    have ih: "\<And>r. length r < length l \<Longrightarrow> utf8 (r @ x # t) \<Longrightarrow> utf8 r \<and> utf8 t"
      using less.hyps less.prems(1) by blast
    have nc: "\<not> continuation x" using less.prems(1) by (simp add: continuation_def)
    have u: "utf8 (a # (s @ x # t))" using less.prems(2) Cons by simp
    show ?thesis
    proof (cases "byte a < 0x80")
      case True
      then show ?thesis using u ih[of s] Cons by (simp add: utf8_ascii_Cons)
    next
      case False
      show ?thesis
      proof (cases s)
        case Nil
        then show ?thesis using u False nc by (auto simp: utf8_Cons[of a] split: if_splits)
      next
        case s1: (Cons b s')
        show ?thesis
        proof (cases s')
          case Nil
          then show ?thesis using u False nc s1 ih[of "[]"] Cons
            by (auto simp: utf8_Cons[of a] split: if_splits)
        next
          case s2: (Cons c s'')
          show ?thesis
          proof (cases s'')
            case Nil
            then show ?thesis using u False nc s1 s2 ih[of "[]"] ih[of "[c]"] Cons
              by (auto simp: utf8_Cons[of a] split: if_splits)
          next
            case (Cons d r)
            then show ?thesis using u False nc s1 s2 ih[of r] ih[of "d # r"] ih[of "c # d # r"] \<open>l = a # s\<close>
              by (auto simp: utf8_Cons[of a] split: if_splits)
          qed
        qed
      qed
    qed
  qed
qed


lemma utf8_concat: "\<forall>l\<in>set ls. utf8 l \<Longrightarrow> utf8 (concat ls)"
  by (induction ls) (auto intro: utf8_append)

lemma universal_newlines_Cons: "c \<noteq> CR \<Longrightarrow> universal_newlines (c # s) = c # universal_newlines s"
  by (cases s) auto

lemma byte_CR: "byte c \<ge> 0x80 \<Longrightarrow> c \<noteq> CR"
  by (auto simp: byte_def)

lemma utf8_universal_newlines: "utf8 s \<Longrightarrow> utf8 (universal_newlines s)"
proof (induction "length s" arbitrary: s rule: less_induct)
  case less
  show ?case
  proof (cases s)
    case Nil
    then show ?thesis by simp
  next
    case (Cons a r)
    have ih: "\<And>t. length t < length s \<Longrightarrow> utf8 t \<Longrightarrow> utf8 (universal_newlines t)"
      using less.hyps by blast
    have u: "utf8 (a # r)" using less.prems Cons by simp
    show ?thesis
    proof (cases "byte a < 0x80")
      case True
      then have ur: "utf8 r" using u by (simp add: utf8_ascii_Cons)
      show ?thesis
      proof (cases "a = CR")
        case False
        then show ?thesis using True ur ih[of r] Cons
          by (simp add: universal_newlines_Cons utf8_ascii_Cons)
      next
        case isCR: True
        show ?thesis
        proof (cases r)
          case Nil
          then show ?thesis using isCR Cons by (simp add: byte_def)
        next
          case rc: (Cons d ds)
          show ?thesis
          proof (cases "d = LF")
            case True
            then have "utf8 ds" using ur rc by (simp add: utf8_ascii_Cons byte_def)
            then have "utf8 (universal_newlines ds)" using ih[of ds] Cons rc by simp
            then show ?thesis using isCR True Cons rc by (simp add: utf8_ascii_Cons byte_def)
          next
            case False
            have "utf8 (universal_newlines r)" using ih[of r] ur Cons by simp
            then show ?thesis using isCR False Cons rc by (simp add: utf8_ascii_Cons byte_def)
          qed
        qed
      qed
    next
      case False
      then have na: "a \<noteq> CR" by (auto simp: byte_def)
      have "\<And>b. continuation b \<Longrightarrow> b \<noteq> CR" by (auto simp: continuation_def byte_def)
      then show ?thesis
        using u False na ih Cons
        by (auto simp: utf8_Cons[of a] universal_newlines_Cons split: if_splits)
    qed
  qed
qed

lemma utf8_readlines: "utf8 s \<Longrightarrow> \<forall>l\<in>set (readlines s). utf8 l"
proof (induction "length s" arbitrary: s rule: less_induct)
  case less
  show ?case
  proof (cases "LF \<in> set s")
    case True
    then obtain l t where s: "s = l @ LF # t" "LF \<notin> set l"
      by (meson split_list_first)
    have a: "byte LF < 0x80" by (simp add: byte_def)
    have u: "utf8 l \<and> utf8 t" using utf8_split[OF a] less.prems s(1) by blast
    then have "utf8 (l @ [LF])" using utf8_append[of l "[LF]"] a by simp
    moreover have "\<forall>k\<in>set (readlines t). utf8 k" using less.hyps[of t] u s(1) by simp
    ultimately show ?thesis using readlines_line[OF s(2), of t] s(1) by simp
  next
    case False
    show ?thesis
    proof (cases "s = []")
      case True
      then show ?thesis by simp
    next
      case ne: False
      then show ?thesis using readlines_partial[OF False ne] less.prems by simp
    qed
  qed
qed

lemma utf8_hosts_lines: "utf8 c \<Longrightarrow> \<forall>l\<in>set (hosts_lines c). utf8 l"
  unfolding hosts_lines_def by (intro utf8_readlines utf8_universal_newlines)

lemma utf8_kept: "utf8 c \<Longrightarrow> list_all utf8 (remove_blocker_entries (hosts_lines c))"
  using utf8_hosts_lines[of c] by (auto simp: list_all_iff remove_blocker_entries_scan dest: scan_subset)

lemma utf8_markers: "utf8 MARKER_START" "utf8 MARKER_END"
  by (simp_all add: MARKER_START_def MARKER_END_def byte_def)

lemma utf8_entry_line: "utf8 ip \<Longrightarrow> utf8 d \<Longrightarrow> utf8 (entry_line ip d)"
proof -
  assume "utf8 ip" "utf8 d"
  moreover have "utf8 '' ''" "utf8 [LF]" by (simp_all add: byte_def)
  ultimately show ?thesis unfolding entry_line_def by (intro utf8_append)
qed

subsection \<open>The operations\<close>

lemma same_files_refl: "same_files w w"
  by (simp add: same_files_def)



lemma same_files_gad: "same_files w (snd (get_active_duration w))"
  by (simp add: same_files_def get_active_duration_def print_def split: option.splits lock_content.splits)



lemma same_files_active: "same_files w w' \<Longrightarrow> is_active w' = is_active w"
  by (simp add: same_files_def is_active_def)


lemma fold_entries:
  "fold (\<lambda>domain ls. ls @ [ip @ '' '' @ domain @ [LF]]) ds acc = acc @ map (entry_line ip) ds"
  by (induction ds arbitrary: acc) (simp_all add: entry_line_def)

lemma add_blocker_entries_eq:
  assumes "get_blocklist c = Items ds"
  shows "add_blocker_entries (Object c) ls =
     Inr (remove_blocker_entries ls @ [[LF] @ MARKER_START @ [LF]]
            @ map (entry_line (get_redirect_ip c)) ds @ [MARKER_END @ [LF]])"
  unfolding add_blocker_entries_def Let_def fold_entries using assms by simp

lemma concat_new_lines:
  "concat (kept @ [[LF] @ MARKER_START @ [LF]] @ map (entry_line ip) ds @ [MARKER_END @ [LF]])
     = concat kept @ managed_block ip ds"
  by (simp add: managed_block_def)

lemma deactivate_ok:
  assumes "same_files w0 w" "is_active w0" "hosts_usable w0"
  shows "fst (deactivate w) = Inr ()"
    and "hosts_file (snd (deactivate w)) = concat (remove_blocker_entries (hosts_lines (hosts_file w0)))"
    and "lock_file (snd (deactivate w)) = None"
    and "hosts_readable (snd (deactivate w))" and "hosts_writable (snd (deactivate w))"
proof -
  obtain d w1 where g: "get_active_duration w = (d, w1)" by (cases "get_active_duration w")
  then have s1: "same_files w w1" using same_files_gad[of w] by simp
  have a: "is_active w" using assms same_files_active by blast
  have f: "hosts_readable w1" "hosts_writable w1" "hosts_file w1 = hosts_file w0" "utf8 (hosts_file w0)"
    using assms s1 by (simp_all add: same_files_def hosts_usable_def)
  have k: "list_all utf8 (remove_blocker_entries (readlines (universal_newlines (hosts_file w0))))"
    using utf8_kept[OF f(4)] by (simp add: hosts_lines_def)
  show "fst (deactivate w) = Inr ()"
    using a f k by (simp add: deactivate_def g Let_def read_hosts_def write_hosts_def print_def)
  show "hosts_file (snd (deactivate w)) = concat (remove_blocker_entries (hosts_lines (hosts_file w0)))"
    using a f k by (simp add: deactivate_def g Let_def read_hosts_def write_hosts_def print_def
        writelines_def hosts_lines_def)
  show "lock_file (snd (deactivate w)) = None"
    using a f k by (simp add: deactivate_def g Let_def read_hosts_def write_hosts_def print_def)
  show "hosts_readable (snd (deactivate w))"
    using a f k by (simp add: deactivate_def g Let_def read_hosts_def write_hosts_def print_def)
  show "hosts_writable (snd (deactivate w))"
    using a f k by (simp add: deactivate_def g Let_def read_hosts_def write_hosts_def print_def)
qed








subsection \<open>The managed block\<close>

lemma marker_chars:
  "LF \<notin> set MARKER_START" "LF \<notin> set MARKER_END" "CR \<notin> set MARKER_START" "CR \<notin> set MARKER_END"
  by (simp_all add: MARKER_START_def MARKER_END_def)

lemma marker_lines:
  "str_in MARKER_START (MARKER_START @ [LF])" "\<not> str_in MARKER_END (MARKER_START @ [LF])"
  "str_in MARKER_END (MARKER_END @ [LF])" "\<not> str_in MARKER_START (MARKER_END @ [LF])"
  by (simp_all add: MARKER_START_def MARKER_END_def)

lemma entry_line_full: "clean_entry ip d \<Longrightarrow> full_line (entry_line ip d)"
proof -
  assume "clean_entry ip d"
  then have "LF \<notin> set (ip @ '' '' @ d)" by (simp add: clean_entry_def)
  then have "full_line ((ip @ '' '' @ d) @ [LF])" by (rule full_lineI)
  then show ?thesis by (simp add: entry_line_def)
qed

lemma entry_line_no_marker: "clean_entry ip d \<Longrightarrow> \<not> has_marker (entry_line ip d)"
proof -
  assume "clean_entry ip d"
  then have "\<not> has_marker ((ip @ '' '' @ d) @ [LF])"
    unfolding has_marker_snoc_LF by (simp add: clean_entry_def)
  then show ?thesis by (simp add: entry_line_def)
qed

lemma entry_line_no_CR: "clean_entry ip d \<Longrightarrow> CR \<notin> set (entry_line ip d)"
  by (auto simp: clean_entry_def entry_line_def)

lemma managed_block_no_CR: "list_all (clean_entry ip) ds \<Longrightarrow> CR \<notin> set (managed_block ip ds)"
  by (auto simp: managed_block_def list_all_iff marker_chars dest: entry_line_no_CR)

lemma readlines_block_tail:
  assumes "list_all (clean_entry ip) ds"
  shows "readlines (MARKER_START @ [LF]
           @ concat (map (entry_line ip) ds) @ MARKER_END @ [LF])
       = [MARKER_START @ [LF]] @ map (entry_line ip) ds
           @ [MARKER_END @ [LF]]"
proof -
  let ?es = "map (entry_line ip) ds"
  have full: "\<forall>l\<in>set ?es. full_line l"
    using assms by (auto simp: list_all_iff entry_line_full)
  have e: "readlines (MARKER_END @ [LF]) = [MARKER_END @ [LF]]"
    using readlines_line[of MARKER_END "[]"] by (simp add: marker_chars)
  have "readlines (MARKER_START @ LF # (concat ?es @ MARKER_END @ [LF]))
      = (MARKER_START @ [LF]) # readlines (concat ?es @ MARKER_END @ [LF])"
    by (rule readlines_line) (rule marker_chars)
  also have "readlines (concat ?es @ MARKER_END @ [LF]) = ?es @ readlines (MARKER_END @ [LF])"
    using full by (rule readlines_full_lines)
  finally show ?thesis using e by simp
qed

lemma kept_no_CR: "CR \<notin> set (concat (remove_blocker_entries (hosts_lines c)))"
proof -
  have "set (remove_blocker_entries (hosts_lines c)) \<subseteq> set (hosts_lines c)"
    using scan_subset by (auto simp: remove_blocker_entries_scan)
  then have "set (concat (remove_blocker_entries (hosts_lines c))) \<subseteq> set (concat (hosts_lines c))"
    by auto
  moreover have "concat (hosts_lines c) = universal_newlines c"
    by (simp add: hosts_lines_def concat_readlines)
  ultimately show ?thesis using universal_newlines_no_CR by auto
qed

lemma kept_canonical: "canonical (remove_blocker_entries (hosts_lines c))"
  by (simp add: remove_blocker_entries_scan hosts_lines_def canonical_scan canonical_readlines)

lemma kept_no_marker: "\<forall>l\<in>set (remove_blocker_entries (hosts_lines c)). \<not> has_marker l"
  by (auto simp: remove_blocker_entries_scan has_marker_def dest: scan_subset)

lemma kept_separator_no_marker:
  "\<forall>l\<in>set (readlines (concat (remove_blocker_entries (hosts_lines c)) @ [LF])). \<not> has_marker l"
  using kept_canonical kept_no_marker by (rule readlines_separator)

lemma hosts_lines_after_activate:
  fixes c :: string
  assumes "list_all (clean_entry ip) ds"
  defines "kept \<equiv> concat (remove_blocker_entries (hosts_lines c))"
  shows "hosts_lines (kept @ managed_block ip ds)
       = readlines (kept @ [LF]) @ [MARKER_START @ [LF]]
           @ map (entry_line ip) ds @ [MARKER_END @ [LF]]"
proof -
  let ?tail = "MARKER_START @ [LF]
           @ concat (map (entry_line ip) ds) @ MARKER_END @ [LF]"
  have "CR \<notin> set (kept @ managed_block ip ds)"
    using kept_no_CR managed_block_no_CR[OF assms(1)] by (simp add: kept_def)
  then have a: "hosts_lines (kept @ managed_block ip ds) = readlines (kept @ managed_block ip ds)"
    by (simp add: hosts_lines_def universal_newlines_id)
  have b: "kept @ managed_block ip ds = kept @ LF # ?tail"
    by (simp add: managed_block_def)
  have c: "readlines (kept @ LF # ?tail) = readlines (kept @ [LF]) @ readlines ?tail"
    by (rule readlines_append_LF)
  have a': "hosts_lines (kept @ LF # ?tail) = readlines (kept @ LF # ?tail)"
    using a unfolding b .
  show ?thesis
    unfolding b a' c readlines_block_tail[OF assms(1)] by (rule refl)
qed

lemma scan_inside_until_end:
  "\<forall>l\<in>set es. \<not> p l \<and> \<not> q l \<Longrightarrow> \<not> p e \<Longrightarrow> q e \<Longrightarrow> spec_scan p q True (es @ [e]) = []"
  by (induction es) auto

lemma scan_block:
  assumes "list_all (clean_entry ip) ds"
  shows "scan False ([MARKER_START @ [LF]]
           @ map (entry_line ip) ds @ [MARKER_END @ [LF]]) = []"
proof -
  let ?es = "map (entry_line ip) ds"
  have "\<forall>l\<in>set ?es. \<not> str_in MARKER_START l \<and> \<not> str_in MARKER_END l"
    using assms entry_line_no_marker by (auto simp: list_all_iff has_marker_def)
  then have "scan True (?es @ [MARKER_END @ [LF]]) = []"
    by (rule scan_inside_until_end) (rule marker_lines)+
  then show ?thesis by (simp add: marker_lines)
qed

lemma remove_after_activate:
  fixes c :: string
  assumes "list_all (clean_entry ip) ds"
  defines "kept \<equiv> concat (remove_blocker_entries (hosts_lines c))"
  shows "concat (remove_blocker_entries (hosts_lines (kept @ managed_block ip ds))) = kept @ [LF]"
proof -
  have "remove_blocker_entries (hosts_lines (kept @ managed_block ip ds))
      = scan False (readlines (kept @ [LF]) @ ([MARKER_START @ [LF]]
           @ map (entry_line ip) ds @ [MARKER_END @ [LF]]))"
    using hosts_lines_after_activate[OF assms(1), of c]
    by (simp add: kept_def remove_blocker_entries_scan)
  also have "\<dots> = readlines (kept @ [LF]) @ scan False ([MARKER_START @ [LF]]
           @ map (entry_line ip) ds @ [MARKER_END @ [LF]])"
    using kept_separator_no_marker[of c]
    by (intro scan_keep) (simp add: kept_def has_marker_def)
  finally show ?thesis using scan_block[OF assms(1)] by (simp add: concat_readlines)
qed

lemma count_markers_after_activate:
  fixes c :: string
  assumes "list_all (clean_entry ip) ds"
  defines "kept \<equiv> concat (remove_blocker_entries (hosts_lines c))"
  shows "length (filter (str_in MARKER_START) (hosts_lines (kept @ managed_block ip ds))) = 1"
    and "length (filter (str_in MARKER_END) (hosts_lines (kept @ managed_block ip ds))) = 1"
proof -
  let ?es = "map (entry_line ip) ds"
  have k: "filter (str_in MARKER_START) (readlines (kept @ [LF])) = []"
          "filter (str_in MARKER_END) (readlines (kept @ [LF])) = []"
    using kept_separator_no_marker[of c] by (auto simp: kept_def has_marker_def filter_empty_conv)
  have e: "filter (str_in MARKER_START) ?es = []" "filter (str_in MARKER_END) ?es = []"
    using assms(1) entry_line_no_marker
    by (auto simp: list_all_iff has_marker_def filter_empty_conv)
  show "length (filter (str_in MARKER_START) (hosts_lines (kept @ managed_block ip ds))) = 1"
    using hosts_lines_after_activate[OF assms(1), of c] k e by (simp add: kept_def marker_lines)
  show "length (filter (str_in MARKER_END) (hosts_lines (kept @ managed_block ip ds))) = 1"
    using hosts_lines_after_activate[OF assms(1), of c] k e by (simp add: kept_def marker_lines)
qed


lemma hosts_lines_concat: "concat (hosts_lines c) = universal_newlines c"
  by (simp add: hosts_lines_def concat_readlines)

lemma scan_no_marker: "\<forall>l\<in>set ls. \<not> p l \<and> \<not> q l \<Longrightarrow> spec_scan p q False ls = ls"
  by (induction ls) auto

lemma utf8_managed_block:
  assumes "list_all (clean_entry ip) ds"
  shows "utf8 (managed_block ip ds)"
proof -
  have "\<forall>l\<in>set (map (entry_line ip) ds). utf8 l"
    using assms by (auto simp: list_all_iff clean_entry_def utf8_entry_line)
  then have "utf8 (concat (map (entry_line ip) ds))" by (rule utf8_concat)
  moreover have "utf8 [LF]" by (simp add: byte_def)
  ultimately show ?thesis
    unfolding managed_block_def by (intro utf8_append utf8_markers)
qed

section \<open>The claims\<close>

lemma spec_format_duration_units:
  "spec_format_duration t =
     (let h = t div 3600; m = (t mod 3600) div 60; s = (t mod 3600) mod 60
      in if h \<noteq> 0 then str_int h @ ''h '' @ str_int m @ ''m '' @ str_int s @ ''s''
         else if m \<noteq> 0 then str_int m @ ''m '' @ str_int s @ ''s''
         else str_int s @ ''s'')"
proof -
  have m: "t - t div 3600 * 3600 = t mod 3600"
    by (simp add: minus_div_mult_eq_mod)
  have s: "t mod 3600 - t mod 3600 div 60 * 60 = t mod 3600 mod 60"
    by (simp add: minus_div_mult_eq_mod)
  show ?thesis
    unfolding spec_format_duration_def Let_def m s by simp
qed

lemma format_duration_nonneg: "0 \<le> t \<Longrightarrow> format_duration t = spec_format_duration t"
proof -
  assume t: "0 \<le> t"
  have h0: "0 \<le> t div 3600" using t by simp
  have m0: "0 \<le> (t mod 3600) div 60" by simp
  show ?thesis
    unfolding spec_format_duration_units format_duration_def Let_def
    using h0 m0 by (simp add: less_le)
qed

lemma format_duration_examples:
  "format_duration 45 = ''45s''" "format_duration 125 = ''2m 5s''"
  "format_duration 3725 = ''1h 2m 5s''"
  by (simp_all add: format_duration_def str_int_def str_nat.simps digit_def)

text \<open>
  Claim C8. Duration formatting splits the elapsed seconds into hours, minutes and
  seconds and renders from the most significant non-zero unit down to the seconds,
  without a leading zero-valued unit: for every elapsed time of \<open>t \<ge> 0\<close> seconds the
  text is the one \<open>spec_format_duration\<close> describes. 45 seconds are rendered as
  \<^verbatim>\<open>45s\<close>, 125 seconds as \<^verbatim>\<open>2m 5s\<close> and 3725 seconds as \<^verbatim>\<open>1h 2m 5s\<close>.
\<close>
theorem format_duration_most_significant_units:
  "(0 \<le> t \<longrightarrow> format_duration t = spec_format_duration t)
   \<and> format_duration 45 = ''45s''
   \<and> format_duration 125 = ''2m 5s''
   \<and> format_duration 3725 = ''1h 2m 5s''"
  using format_duration_nonneg format_duration_examples by blast

theorem format_duration_most_significant_units_witness:
  "(0::int) \<le> 3600 \<and> format_duration 3600 = spec_format_duration 3600
   \<and> spec_format_duration 3600 = ''1h 0m 0s''"
proof -
  have h: "(0::int) \<le> 3600" by simp
  have v: "spec_format_duration 3600 = ''1h 0m 0s''"
    by (simp add: spec_format_duration_def str_int_def str_nat.simps digit_def)
  from format_duration_most_significant_units[of 3600] h
  have "format_duration 3600 = spec_format_duration 3600" by blast
  with h v show ?thesis by blast
qed

text \<open>
  Claim C10. When a line sequence holds a start-marker line and no end-marker line
  after it, the removal pass drops that line and every line after it: the result is
  the result of the pass on the lines before it.
\<close>
theorem unterminated_block_drops_rest:
  assumes "str_in MARKER_START line" and "\<forall>x\<in>set rest. \<not> str_in MARKER_END x"
  shows "remove_blocker_entries (before @ line # rest) = remove_blocker_entries before"
  using assms by (simp add: remove_blocker_entries_scan scan_unterminated)

theorem unterminated_block_drops_rest_witness:
  "remove_blocker_entries
     ([''127.0.0.1 localhost\<newline>''] @ ''# SiteBlocker START\<newline>'' # [''0.0.0.0 a.com\<newline>'', ''10.0.0.5 printer\<newline>''])
   = [''127.0.0.1 localhost\<newline>'']"
proof -
  have s: "str_in MARKER_START ''# SiteBlocker START\<newline>''"
    by (simp add: MARKER_START_def)
  have e: "\<forall>x\<in>set [''0.0.0.0 a.com\<newline>'', ''10.0.0.5 printer\<newline>'']. \<not> str_in MARKER_END x"
    by (simp add: MARKER_END_def)
  have k: "remove_blocker_entries [''127.0.0.1 localhost\<newline>''] = [''127.0.0.1 localhost\<newline>'']"
    by (simp add: remove_blocker_entries_def remove_step_def MARKER_START_def MARKER_END_def)
  show ?thesis
    using unterminated_block_drops_rest[OF s e, of "[''127.0.0.1 localhost\<newline>'']"] k
    by (rule trans)
qed

text \<open>
  Claim C5. \<^verbatim>\<open>deactivate\<close> without a lock file returns normally, prints
  ``SiteBlocker is not active'' and changes nothing else: the hosts file and the lock
  state stay as they are.
\<close>
theorem deactivate_inactive_noop:
  assumes "\<not> is_active w"
  shows "deactivate w = (Inr (), w\<lparr>stdout := stdout w @ ''SiteBlocker is not active'' @ [LF]\<rparr>)
         \<and> hosts_file (snd (deactivate w)) = hosts_file w
         \<and> lock_file (snd (deactivate w)) = lock_file w"
  using assms by (simp add: deactivate_def print_def)

theorem deactivate_inactive_noop_witness:
  "deactivate scenario_world
     = (Inr (), scenario_world\<lparr>stdout := ''SiteBlocker is not active\<newline>''\<rparr>)"
proof -
  have h: "\<not> is_active scenario_world"
    by (simp add: is_active_def scenario_world_def)
  have s: "stdout scenario_world = []" by (simp add: scenario_world_def)
  from deactivate_inactive_noop[OF h] show ?thesis unfolding s by simp
qed

text \<open>
  Claim C7. When the lock file exists and its content does not parse as a timestamp,
  \<^verbatim>\<open>get_active_duration\<close> returns the duration zero and prints the failure; it has
  no way to end the process.
\<close>
theorem unparsable_lock_zero_duration:
  assumes "lock_file w = Some (Unparsable e)"
  shows "get_active_duration w
           = (0, w\<lparr>stdout := stdout w @ ''Error reading lock file: '' @ e @ [LF]\<rparr>)"
  using assms by (simp add: get_active_duration_def is_active_def print_def)

theorem unparsable_lock_zero_duration_witness:
  "get_active_duration (scenario_world\<lparr>lock_file := Some (Unparsable ''Invalid isoformat string: 'soon' '')\<rparr>)
     = (0, scenario_world\<lparr>lock_file := Some (Unparsable ''Invalid isoformat string: 'soon' ''),
                          stdout := ''Error reading lock file: Invalid isoformat string: 'soon' \<newline>''\<rparr>)"
proof -
  let ?w = "scenario_world\<lparr>lock_file := Some (Unparsable ''Invalid isoformat string: 'soon' '')\<rparr>"
  have h: "lock_file ?w = Some (Unparsable ''Invalid isoformat string: 'soon' '')" by simp
  have s: "stdout ?w = []" by (simp add: scenario_world_def)
  from unparsable_lock_zero_duration[OF h] show ?thesis unfolding s by simp
qed

text \<open>
  Claim C4. \<^verbatim>\<open>activate\<close> with the lock file present returns normally and only
  prints the already-active message with the elapsed duration: the hosts file is
  not rewritten, so no second block appears, and the lock file keeps its timestamp.
\<close>
theorem activate_active_noop:
  assumes "is_active w"
  shows "activate cfg w
           = (Inr (), print (''SiteBlocker is already active (running for ''
                               @ format_duration (fst (get_active_duration w)) @ '')'')
                        (snd (get_active_duration w)))
         \<and> hosts_file (snd (activate cfg w)) = hosts_file w
         \<and> lock_file (snd (activate cfg w)) = lock_file w
         \<and> (\<forall>start. lock_file w = Some (Stamp start) \<longrightarrow>
               stdout (snd (activate cfg w))
                 = stdout w @ ''SiteBlocker is already active (running for ''
                     @ format_duration (now w - start) @ '')'' @ [LF])"
proof -
  obtain d w1 where g: "get_active_duration w = (d, w1)" by (cases "get_active_duration w")
  have s: "same_files w w1" using same_files_gad[of w] g by simp
  have a: "activate cfg w
           = (Inr (), print (''SiteBlocker is already active (running for ''
                               @ format_duration (fst (get_active_duration w)) @ '')'')
                        (snd (get_active_duration w)))"
    using assms by (simp add: activate_def g)
  have b: "hosts_file (snd (activate cfg w)) = hosts_file w" "lock_file (snd (activate cfg w)) = lock_file w"
    using s unfolding a by (simp_all add: g print_def same_files_def)
  have c: "\<forall>start. lock_file w = Some (Stamp start) \<longrightarrow>
               stdout (snd (activate cfg w))
                 = stdout w @ ''SiteBlocker is already active (running for ''
                     @ format_duration (now w - start) @ '')'' @ [LF]"
    unfolding a using assms by (simp add: get_active_duration_def print_def)
  from a b c show ?thesis by blast
qed

theorem activate_active_noop_witness:
  "hosts_file (snd (activate scenario_config (scenario_world\<lparr>lock_file := Some (Stamp 0), now := 125\<rparr>))) = []
   \<and> lock_file (snd (activate scenario_config (scenario_world\<lparr>lock_file := Some (Stamp 0), now := 125\<rparr>)))
       = Some (Stamp 0)
   \<and> stdout (snd (activate scenario_config (scenario_world\<lparr>lock_file := Some (Stamp 0), now := 125\<rparr>)))
       = ''SiteBlocker is already active (running for 2m 5s)\<newline>''"
proof -
  let ?w = "scenario_world\<lparr>lock_file := Some (Stamp 0), now := 125\<rparr>"
  have h: "is_active ?w" by (simp add: is_active_def)
  have f: "hosts_file ?w = []" "lock_file ?w = Some (Stamp 0)" "stdout ?w = []" "now ?w - 0 = 125"
    by (simp_all add: scenario_world_def)
  have d: "format_duration 125 = ''2m 5s''"
    by (simp add: format_duration_def str_int_def str_nat.simps digit_def)
  from activate_active_noop[OF h, of scenario_config]
  have "hosts_file (snd (activate scenario_config ?w)) = hosts_file ?w"
    and "lock_file (snd (activate scenario_config ?w)) = lock_file ?w"
    and "stdout (snd (activate scenario_config ?w))
           = stdout ?w @ ''SiteBlocker is already active (running for ''
               @ format_duration (now ?w - 0) @ '')'' @ [LF]"
    using f(2) by blast+
  then show ?thesis unfolding f d by simp
qed

lemma spec_scan_cong:
  "\<forall>l\<in>set ls. p l = p' l \<and> (\<not> p l \<longrightarrow> q l = q' l) \<Longrightarrow>
   spec_scan p q b ls = spec_scan p' q' b ls"
  by (induction ls arbitrary: b) auto

lemma exact_markers:
  "is_marker_line MARKER_START l \<Longrightarrow> str_in MARKER_START l"
  "is_marker_line MARKER_END l \<Longrightarrow> str_in MARKER_END l \<and> \<not> str_in MARKER_START l"
  by (auto simp: is_marker_line_def MARKER_START_def MARKER_END_def)

lemma scan_exact_agree:
  assumes "\<forall>l\<in>set ls. has_marker l \<longrightarrow> is_marker_line MARKER_START l \<or> is_marker_line MARKER_END l"
  shows "scan b ls = spec_scan (is_marker_line MARKER_START) (is_marker_line MARKER_END) b ls"
proof (rule spec_scan_cong, rule ballI)
  fix l assume "l \<in> set ls"
  then have h: "has_marker l \<longrightarrow> is_marker_line MARKER_START l \<or> is_marker_line MARKER_END l"
    using assms by blast
  show "str_in MARKER_START l = is_marker_line MARKER_START l
        \<and> (\<not> str_in MARKER_START l \<longrightarrow> str_in MARKER_END l = is_marker_line MARKER_END l)"
    using h exact_markers[of l] by (auto simp: has_marker_def)
qed

text \<open>
  Claim C3, as the code has it. The removal pass is the linear scan with the flag
  ``inside managed block'' whose tests are ``the start-marker text occurs in the
  line'' and, when it does not, ``the end-marker text occurs in the line''. No line
  of its result holds marker text, whatever the input. On inputs where marker text
  occurs only in lines that are exactly a marker, the pass is the scan with the
  exact-match tests.
\<close>
theorem remove_blocker_entries_pass:
  "remove_blocker_entries ls = spec_scan (str_in MARKER_START) (str_in MARKER_END) False ls
   \<and> (\<forall>l\<in>set (remove_blocker_entries ls). l \<in> set ls \<and> \<not> has_marker l)
   \<and> ((\<forall>l\<in>set ls. has_marker l \<longrightarrow> is_marker_line MARKER_START l \<or> is_marker_line MARKER_END l)
        \<longrightarrow> remove_blocker_entries ls
              = spec_scan (is_marker_line MARKER_START) (is_marker_line MARKER_END) False ls)"
proof -
  have a: "remove_blocker_entries ls = scan False ls"
    by (rule remove_blocker_entries_scan)
  have b: "\<forall>l\<in>set (remove_blocker_entries ls). l \<in> set ls \<and> \<not> has_marker l"
    unfolding a has_marker_def by (auto dest: scan_subset)
  have c: "(\<forall>l\<in>set ls. has_marker l \<longrightarrow> is_marker_line MARKER_START l \<or> is_marker_line MARKER_END l)
        \<longrightarrow> remove_blocker_entries ls
              = spec_scan (is_marker_line MARKER_START) (is_marker_line MARKER_END) False ls"
    unfolding a using scan_exact_agree by blast
  from a b c show ?thesis by blast
qed

theorem remove_blocker_entries_pass_witness:
  "remove_blocker_entries
     [''127.0.0.1 localhost\<newline>'', ''# SiteBlocker START\<newline>'', ''0.0.0.0 a.com\<newline>'',
      ''# SiteBlocker END\<newline>'', ''10.0.0.5 printer\<newline>'']
   = spec_scan (is_marker_line MARKER_START) (is_marker_line MARKER_END) False
       [''127.0.0.1 localhost\<newline>'', ''# SiteBlocker START\<newline>'', ''0.0.0.0 a.com\<newline>'',
        ''# SiteBlocker END\<newline>'', ''10.0.0.5 printer\<newline>'']
   \<and> spec_scan (is_marker_line MARKER_START) (is_marker_line MARKER_END) False
       [''127.0.0.1 localhost\<newline>'', ''# SiteBlocker START\<newline>'', ''0.0.0.0 a.com\<newline>'',
        ''# SiteBlocker END\<newline>'', ''10.0.0.5 printer\<newline>'']
     = [''127.0.0.1 localhost\<newline>'', ''10.0.0.5 printer\<newline>'']"
proof -
  let ?ls = "[''127.0.0.1 localhost\<newline>'', ''# SiteBlocker START\<newline>'', ''0.0.0.0 a.com\<newline>'',
      ''# SiteBlocker END\<newline>'', ''10.0.0.5 printer\<newline>'']"
  have h: "\<forall>l\<in>set ?ls. has_marker l \<longrightarrow> is_marker_line MARKER_START l \<or> is_marker_line MARKER_END l"
    by (simp add: has_marker_def is_marker_line_def MARKER_START_def MARKER_END_def)
  have v: "spec_scan (is_marker_line MARKER_START) (is_marker_line MARKER_END) False ?ls
     = [''127.0.0.1 localhost\<newline>'', ''10.0.0.5 printer\<newline>'']"
    by (simp add: is_marker_line_def MARKER_START_def MARKER_END_def)
  from remove_blocker_entries_pass[of ?ls] h
  have "remove_blocker_entries ?ls
      = spec_scan (is_marker_line MARKER_START) (is_marker_line MARKER_END) False ?ls"
    by blast
  with v show ?thesis by blast
qed

theorem remove_exact_match_counterexample:
  "remove_blocker_entries [''10.0.0.1 intranet # SiteBlocker START\<newline>'', ''10.0.0.2 wiki\<newline>''] = []
   \<and> spec_scan (is_marker_line MARKER_START) (is_marker_line MARKER_END) False
        [''10.0.0.1 intranet # SiteBlocker START\<newline>'', ''10.0.0.2 wiki\<newline>'']
      = [''10.0.0.1 intranet # SiteBlocker START\<newline>'', ''10.0.0.2 wiki\<newline>'']"
  by (simp add: remove_blocker_entries_def remove_step_def is_marker_line_def
      MARKER_START_def MARKER_END_def)

lemma utf8_block_lines:
  assumes "list_all utf8 (map (entry_line ip) ds)"
  shows "list_all utf8 ([[LF] @ MARKER_START @ [LF]] @ map (entry_line ip) ds @ [MARKER_END @ [LF]])"
proof -
  have l: "utf8 [LF]" by (simp add: byte_def)
  have s: "utf8 ([LF] @ MARKER_START @ [LF])"
    by (intro utf8_append utf8_markers l)
  have e: "utf8 (MARKER_END @ [LF])"
    by (intro utf8_append utf8_markers l)
  show ?thesis using assms s e by (simp del: append.simps)
qed

lemma clean_entries_utf8: "list_all (clean_entry ip) ds \<Longrightarrow> list_all utf8 (map (entry_line ip) ds)"
  by (auto simp: list_all_iff clean_entry_def utf8_entry_line)

lemma activate_ok:
  assumes "\<not> is_active w" "hosts_usable w" "get_blocklist c = Items ds"
    and "list_all utf8 (map (entry_line (get_redirect_ip c)) ds)"
  shows "fst (activate (Object c) w) = Inr ()"
    and "hosts_file (snd (activate (Object c) w))
           = concat (remove_blocker_entries (hosts_lines (hosts_file w)))
               @ managed_block (get_redirect_ip c) ds"
    and "lock_file (snd (activate (Object c) w)) = Some (Stamp (now w))"
    and "hosts_readable (snd (activate (Object c) w))"
    and "hosts_writable (snd (activate (Object c) w))"
proof -
  let ?ls = "readlines (universal_newlines (hosts_file w))"
  let ?new = "remove_blocker_entries ?ls @ [[LF] @ MARKER_START @ [LF]]
            @ map (entry_line (get_redirect_ip c)) ds @ [MARKER_END @ [LF]]"
  have u: "hosts_readable w" "utf8 (hosts_file w)" "hosts_writable w"
    using assms(2) by (simp_all add: hosts_usable_def)
  have a: "add_blocker_entries (Object c) ?ls = Inr ?new"
    by (rule add_blocker_entries_eq[OF assms(3)])
  have k: "list_all utf8 (remove_blocker_entries ?ls)"
    using utf8_kept[OF u(2)] by (simp add: hosts_lines_def)
  have v: "list_all utf8 ?new"
    using k utf8_block_lines[OF assms(4)] by simp
  have b: "blocked_count (Object c) = Inr (length ds)"
    using assms(3) by (simp add: blocked_count_def)
  have w: "writelines ?new = concat (remove_blocker_entries (hosts_lines (hosts_file w)))
               @ managed_block (get_redirect_ip c) ds"
    unfolding writelines_def concat_new_lines by (simp add: hosts_lines_def)
  show "fst (activate (Object c) w) = Inr ()"
    using assms(1) u v by (simp add: activate_def Let_def read_hosts_def write_hosts_def print_def a b)
  show "hosts_file (snd (activate (Object c) w))
           = concat (remove_blocker_entries (hosts_lines (hosts_file w)))
               @ managed_block (get_redirect_ip c) ds"
    using assms(1) u v w
    by (simp add: activate_def Let_def read_hosts_def write_hosts_def print_def a b)
  show "lock_file (snd (activate (Object c) w)) = Some (Stamp (now w))"
    using assms(1) u v by (simp add: activate_def Let_def read_hosts_def write_hosts_def print_def a b)
  show "hosts_readable (snd (activate (Object c) w))"
    using assms(1) u v by (simp add: activate_def Let_def read_hosts_def write_hosts_def print_def a b)
  show "hosts_writable (snd (activate (Object c) w))"
    using assms(1) u v by (simp add: activate_def Let_def read_hosts_def write_hosts_def print_def a b)
qed

lemma config_writable_cases:
  "config_writable cfg \<longleftrightarrow>
     (\<exists>c ds. cfg = Object c \<and> get_blocklist c = Items ds
        \<and> list_all utf8 (map (entry_line (get_redirect_ip c)) ds))"
  by (auto simp: config_writable_def split: parsed.splits blocklist_value.splits)

lemma config_countable_cases:
  "config_countable cfg \<longleftrightarrow> (\<exists>c ds. cfg = Object c \<and> get_blocklist c = Items ds)"
  by (auto simp: config_countable_def blocked_count_def split: parsed.splits blocklist_value.splits)

lemma activate_fails:
  assumes "\<not> is_active w" "\<not> (hosts_usable w \<and> config_writable cfg)"
  shows "\<exists>a. fst (activate cfg w) = Inl a \<and> exit_status a = 1"
proof (cases "hosts_readable w \<and> utf8 (hosts_file w)")
  case False
  then show ?thesis using assms(1)
    by (auto simp: activate_def Let_def read_hosts_def print_def)
next
  case True
  let ?ls = "readlines (universal_newlines (hosts_file w))"
  have k: "list_all utf8 (remove_blocker_entries ?ls)"
    using utf8_kept[of "hosts_file w"] True by (simp add: hosts_lines_def)
  show ?thesis
  proof (cases "\<exists>c ds. cfg = Object c \<and> get_blocklist c = Items ds")
    case False
    then have "\<exists>a. add_blocker_entries cfg ?ls = Inl a \<and> exit_status a = 1"
      by (auto simp: add_blocker_entries_def Let_def split: parsed.splits blocklist_value.splits)
    then show ?thesis using assms(1) True
      by (auto simp: activate_def Let_def read_hosts_def print_def)
  next
    case c: True
    then obtain c ds where cfg: "cfg = Object c" "get_blocklist c = Items ds" by blast
    let ?new = "remove_blocker_entries ?ls @ [[LF] @ MARKER_START @ [LF]]
            @ map (entry_line (get_redirect_ip c)) ds @ [MARKER_END @ [LF]]"
    have a: "add_blocker_entries cfg ?ls = Inr ?new"
      unfolding cfg(1) by (rule add_blocker_entries_eq[OF cfg(2)])
    have "\<not> hosts_writable w \<or> \<not> list_all utf8 (map (entry_line (get_redirect_ip c)) ds)"
      using assms(2) True cfg by (auto simp: hosts_usable_def config_writable_cases)
    then have "\<not> hosts_writable w \<or> \<not> list_all utf8 ?new" by auto
    then show ?thesis using assms(1) True
      by (auto simp: activate_def Let_def read_hosts_def write_hosts_def print_def a)
  qed
qed


lemma activate_success:
  assumes "\<not> is_active w" "fst (activate cfg w) = Inr ()"
  shows "is_active (snd (activate cfg w))" and "hosts_usable (snd (activate cfg w))"
proof -
  have ok: "hosts_usable w \<and> config_writable cfg"
    using activate_fails[OF assms(1), of cfg] assms(2) by auto
  then obtain c ds where cfg: "cfg = Object c" "get_blocklist c = Items ds"
      "list_all utf8 (map (entry_line (get_redirect_ip c)) ds)"
    by (auto simp: config_writable_cases)
  have u: "hosts_usable w" using ok by blast
  note act = activate_ok[OF assms(1) u cfg(2,3)]
  show "is_active (snd (activate cfg w))"
    using act(3) by (simp add: cfg(1) is_active_def)
  have "utf8 (hosts_file w)" using u by (simp add: hosts_usable_def)
  then have "utf8 (concat (remove_blocker_entries (hosts_lines (hosts_file w))))"
    using utf8_kept[of "hosts_file w"] by (auto simp: list_all_iff intro: utf8_concat)
  moreover have "utf8 (managed_block (get_redirect_ip c) ds)"
  proof -
    have "utf8 (concat ([[LF] @ MARKER_START @ [LF]] @ map (entry_line (get_redirect_ip c)) ds
             @ [MARKER_END @ [LF]]))"
      using utf8_block_lines[OF cfg(3)] by (intro utf8_concat) (simp add: list_all_iff)
    then show ?thesis by (simp add: managed_block_def)
  qed
  ultimately have "utf8 (hosts_file (snd (activate cfg w)))"
    unfolding cfg(1) act(2) by (rule utf8_append)
  then show "hosts_usable (snd (activate cfg w))"
    using act(4,5) by (simp add: cfg(1) hosts_usable_def)
qed

lemma scenario_facts:
  "\<not> is_active scenario_world" "hosts_readable scenario_world" "hosts_writable scenario_world"
  "hosts_file scenario_world = []" "stdout scenario_world = []" "lock_file scenario_world = None"
  "hosts_usable scenario_world"
  by (simp_all add: scenario_world_def is_active_def hosts_usable_def)

lemma scenario_config_object: "scenario_config = Object scenario_object"
  by (simp add: scenario_config_def scenario_object_def)

lemma scenario_object_facts:
  "get_redirect_ip scenario_object = ''0.0.0.0''"
  "get_blocklist scenario_object = Items [''a.com'', ''b.com'']"
  by (simp_all add: scenario_object_def get_redirect_ip_def get_blocklist_def)

lemma scenario_clean: "list_all (clean_entry ''0.0.0.0'') [''a.com'', ''b.com'']"
  by (simp add: clean_entry_def has_marker_def MARKER_START_def MARKER_END_def byte_def)

lemma scenario_kept: "concat (spec_scan p q False (hosts_lines [])) = []"
  by (simp add: hosts_lines_def)

lemma kept_unmarked:
  assumes "\<forall>l\<in>set (hosts_lines c). \<not> has_marker l"
  shows "concat (scan False (hosts_lines c)) = universal_newlines c"
proof -
  have "scan False (hosts_lines c) = hosts_lines c"
    using assms by (intro scan_no_marker) (simp add: has_marker_def)
  then show ?thesis by (simp add: hosts_lines_concat)
qed

text \<open>
  Claim C1, as the code has it. Let the session be inactive, let the hosts file be
  readable, decodable and writable, and let the configuration be an object with
  redirect address R and a blocklist that yields the domains D, every generated line
  \<^verbatim>\<open>R D[i]\<close> being encodable text without line breaks and without marker text. Then
  \<^verbatim>\<open>activate\<close> returns normally and the hosts file becomes: the prior content, read
  with universal newlines, after the removal pass of the specification with the
  substring tests; a separator newline; the start marker line; the N lines
  \<^verbatim>\<open>R D[i]\<close> in the configured order; the end marker line. Where no line of the prior
  content holds marker text, what precedes the separator is the whole prior content
  with its line ends translated. Read back, the file has exactly one start-marker
  line and exactly one end-marker line, no marker text before the appended block,
  and it decodes.
\<close>
theorem activate_writes_one_block:
  fixes c :: config and w :: world
  defines "kept \<equiv> concat (spec_scan (str_in MARKER_START) (str_in MARKER_END) False
                             (readlines (universal_newlines (hosts_file w))))"
    and "ip \<equiv> get_redirect_ip c"
    and "w' \<equiv> snd (activate (Object c) w)"
  assumes "\<not> is_active w" and "hosts_readable w" and "utf8 (hosts_file w)" and "hosts_writable w"
    and "get_blocklist c = Items domains" and "list_all (clean_entry ip) domains"
  shows "fst (activate (Object c) w) = Inr ()
       \<and> hosts_file w' = kept @ [LF] @ MARKER_START @ [LF]
                           @ concat (map (\<lambda>d. ip @ '' '' @ d @ [LF]) domains) @ MARKER_END @ [LF]
       \<and> hosts_lines (hosts_file w')
           = readlines (kept @ [LF]) @ [MARKER_START @ [LF]]
               @ map (\<lambda>d. ip @ '' '' @ d @ [LF]) domains @ [MARKER_END @ [LF]]
       \<and> (\<forall>l\<in>set (readlines (kept @ [LF])). \<not> has_marker l)
       \<and> length (filter (str_in MARKER_START) (hosts_lines (hosts_file w'))) = 1
       \<and> length (filter (str_in MARKER_END) (hosts_lines (hosts_file w'))) = 1
       \<and> ((\<forall>l\<in>set (readlines (universal_newlines (hosts_file w))). \<not> has_marker l)
            \<longrightarrow> kept = universal_newlines (hosts_file w))
       \<and> utf8 (hosts_file w')"
proof -
  have e: "(\<lambda>d. ip @ '' '' @ d @ [LF]) = entry_line ip"
    by (rule ext) (simp add: entry_line_def)
  have k: "kept = concat (remove_blocker_entries (hosts_lines (hosts_file w)))"
    by (simp add: kept_def remove_blocker_entries_scan hosts_lines_def)
  have u: "hosts_usable w" using assms(5-7) by (simp add: hosts_usable_def)
  have en: "list_all utf8 (map (entry_line (get_redirect_ip c)) domains)"
    using clean_entries_utf8 assms(9) unfolding ip_def .
  note act = activate_ok[OF assms(4) u assms(8) en]
  have cl: "list_all (clean_entry ip) domains" by (rule assms(9))
  have h: "hosts_file w' = kept @ managed_block ip domains"
    using act(2) by (simp add: w'_def k ip_def)
  have 1: "fst (activate (Object c) w) = Inr ()" by (rule act(1))
  have 2: "hosts_file w' = kept @ [LF] @ MARKER_START @ [LF]
                           @ concat (map (\<lambda>d. ip @ '' '' @ d @ [LF]) domains) @ MARKER_END @ [LF]"
    unfolding h e by (simp add: managed_block_def)
  have 3: "hosts_lines (hosts_file w')
           = readlines (kept @ [LF]) @ [MARKER_START @ [LF]]
               @ map (\<lambda>d. ip @ '' '' @ d @ [LF]) domains @ [MARKER_END @ [LF]]"
    unfolding h e k by (rule hosts_lines_after_activate[OF cl])
  have 4: "\<forall>l\<in>set (readlines (kept @ [LF])). \<not> has_marker l"
    unfolding k by (rule kept_separator_no_marker)
  have 5: "length (filter (str_in MARKER_START) (hosts_lines (hosts_file w'))) = 1"
    unfolding h k by (rule count_markers_after_activate(1)[OF cl])
  have 6: "length (filter (str_in MARKER_END) (hosts_lines (hosts_file w'))) = 1"
    unfolding h k by (rule count_markers_after_activate(2)[OF cl])
  have 7: "(\<forall>l\<in>set (readlines (universal_newlines (hosts_file w))). \<not> has_marker l)
            \<longrightarrow> kept = universal_newlines (hosts_file w)"
    using kept_unmarked[of "hosts_file w"] by (simp add: kept_def hosts_lines_def)
  have 8: "utf8 (hosts_file w')"
    using activate_success(2)[OF assms(4) act(1)] by (simp add: w'_def hosts_usable_def)
  from 1 2 3 4 5 6 7 8 show ?thesis by blast
qed

theorem activate_writes_one_block_witness:
  "hosts_file (snd (activate scenario_config scenario_world))
     = ''\<newline># SiteBlocker START\<newline>0.0.0.0 a.com\<newline>0.0.0.0 b.com\<newline># SiteBlocker END\<newline>''"
proof -
  have u: "utf8 (hosts_file scenario_world)" by (simp add: scenario_facts)
  have cl: "list_all (clean_entry (get_redirect_ip scenario_object)) [''a.com'', ''b.com'']"
    unfolding scenario_object_facts by (rule scenario_clean)
  from activate_writes_one_block[OF scenario_facts(1,2) u scenario_facts(3)
      scenario_object_facts(2) cl]
  have "hosts_file (snd (activate (Object scenario_object) scenario_world))
      = concat (spec_scan (str_in MARKER_START) (str_in MARKER_END) False
                  (readlines (universal_newlines (hosts_file scenario_world))))
          @ [LF] @ MARKER_START @ [LF]
          @ concat (map (\<lambda>d. get_redirect_ip scenario_object @ '' '' @ d @ [LF]) [''a.com'', ''b.com''])
          @ MARKER_END @ [LF]"
    by blast
  then show ?thesis
    unfolding scenario_facts scenario_object_facts scenario_config_object
    by (simp add: MARKER_START_def MARKER_END_def)
qed

theorem activate_block_counterexample:
  "hosts_lines (hosts_file (snd (activate
      (Object \<lparr>redirect_ip = Some ''0.0.0.0'',
               blocklist = Some (Items [''a.com\<newline># SiteBlocker END\<newline># SiteBlocker START''])\<rparr>)
      scenario_world)))
   = [''\<newline>'', ''# SiteBlocker START\<newline>'', ''0.0.0.0 a.com\<newline>'', ''# SiteBlocker END\<newline>'',
      ''# SiteBlocker START\<newline>'', ''# SiteBlocker END\<newline>'']
   \<and> hosts_lines (hosts_file (snd (activate scenario_config
        (scenario_world\<lparr>hosts_file := ''127.0.0.1 localhost''\<rparr>))))
   = [''127.0.0.1 localhost\<newline>'', ''# SiteBlocker START\<newline>'', ''0.0.0.0 a.com\<newline>'',
      ''0.0.0.0 b.com\<newline>'', ''# SiteBlocker END\<newline>'']"
  by (simp add: activate_def scenario_world_def scenario_config_def is_active_def print_def
      read_hosts_def write_hosts_def writelines_def add_blocker_entries_def blocked_count_def
      remove_blocker_entries_def remove_step_def get_redirect_ip_def get_blocklist_def
      hosts_lines_def MARKER_START_def MARKER_END_def byte_def)

text \<open>
  Claim C2, as the code has it. Under the conditions of C1, \<^verbatim>\<open>activate\<close> followed by
  \<^verbatim>\<open>deactivate\<close> returns normally, removes the lock file and leaves the hosts file
  as the prior content, read with universal newlines, after the removal pass of the
  specification with the substring tests, followed by the one separator newline.
  Where no line of the prior content holds marker text this is the prior content
  with its line ends translated plus one newline, and the prior content itself plus
  one newline when it has no carriage return. From an empty hosts file the result is
  therefore the single newline, not the empty file.
\<close>
theorem activate_deactivate_roundtrip:
  fixes c :: config and w :: world
  defines "w1 \<equiv> snd (activate (Object c) w)"
  assumes "\<not> is_active w" and "hosts_readable w" and "utf8 (hosts_file w)" and "hosts_writable w"
    and "get_blocklist c = Items domains" and "list_all (clean_entry (get_redirect_ip c)) domains"
  shows "fst (deactivate w1) = Inr ()
       \<and> hosts_file (snd (deactivate w1))
           = concat (spec_scan (str_in MARKER_START) (str_in MARKER_END) False
                       (readlines (universal_newlines (hosts_file w)))) @ [LF]
       \<and> lock_file (snd (deactivate w1)) = None
       \<and> ((\<forall>l\<in>set (readlines (universal_newlines (hosts_file w))). \<not> has_marker l)
            \<longrightarrow> hosts_file (snd (deactivate w1)) = universal_newlines (hosts_file w) @ [LF])
       \<and> ((\<forall>l\<in>set (readlines (universal_newlines (hosts_file w))). \<not> has_marker l)
            \<and> CR \<notin> set (hosts_file w)
            \<longrightarrow> hosts_file (snd (deactivate w1)) = hosts_file w @ [LF])"
proof -
  have u: "hosts_usable w" using assms(3-5) by (simp add: hosts_usable_def)
  have en: "list_all utf8 (map (entry_line (get_redirect_ip c)) domains)"
    using clean_entries_utf8 assms(7) .
  note act = activate_ok[OF assms(2) u assms(6) en]
  have a: "is_active w1" "hosts_usable w1"
    using activate_success[OF assms(2) act(1)] by (simp_all add: w1_def)
  have h: "hosts_file w1 = concat (remove_blocker_entries (hosts_lines (hosts_file w)))
                             @ managed_block (get_redirect_ip c) domains"
    using act(2) by (simp add: w1_def)
  have k: "concat (spec_scan (str_in MARKER_START) (str_in MARKER_END) False
                       (readlines (universal_newlines (hosts_file w))))
         = concat (remove_blocker_entries (hosts_lines (hosts_file w)))"
    by (simp add: remove_blocker_entries_scan hosts_lines_def)
  have 1: "fst (deactivate w1) = Inr ()"
    using deactivate_ok(1)[OF same_files_refl a] .
  have 2: "hosts_file (snd (deactivate w1))
           = concat (spec_scan (str_in MARKER_START) (str_in MARKER_END) False
                       (readlines (universal_newlines (hosts_file w)))) @ [LF]"
    using deactivate_ok(2)[OF same_files_refl a] unfolding h k
    by (simp add: remove_after_activate[OF assms(7)])
  have 3: "lock_file (snd (deactivate w1)) = None"
    using deactivate_ok(3)[OF same_files_refl a] .
  have 4: "(\<forall>l\<in>set (readlines (universal_newlines (hosts_file w))). \<not> has_marker l)
            \<longrightarrow> hosts_file (snd (deactivate w1)) = universal_newlines (hosts_file w) @ [LF]"
    unfolding 2 using kept_unmarked[of "hosts_file w"] by (simp add: hosts_lines_def)
  have 5: "(\<forall>l\<in>set (readlines (universal_newlines (hosts_file w))). \<not> has_marker l)
            \<and> CR \<notin> set (hosts_file w)
            \<longrightarrow> hosts_file (snd (deactivate w1)) = hosts_file w @ [LF]"
    using 4 by (auto simp: universal_newlines_id)
  from 1 2 3 4 5 show ?thesis by blast
qed

theorem activate_deactivate_roundtrip_witness:
  "hosts_file (snd (deactivate (snd (activate scenario_config
      (scenario_world\<lparr>hosts_file := ''127.0.0.1 localhost\<newline>''\<rparr>)))))
     = ''127.0.0.1 localhost\<newline>\<newline>''
   \<and> lock_file (snd (deactivate (snd (activate scenario_config
      (scenario_world\<lparr>hosts_file := ''127.0.0.1 localhost\<newline>''\<rparr>))))) = None"
proof -
  let ?w = "scenario_world\<lparr>hosts_file := ''127.0.0.1 localhost\<newline>''\<rparr>"
  have f: "\<not> is_active ?w" "hosts_readable ?w" "hosts_writable ?w"
    by (simp_all add: scenario_world_def is_active_def)
  have h: "hosts_file ?w = ''127.0.0.1 localhost\<newline>''" by simp
  have u: "utf8 (hosts_file ?w)" by (simp add: byte_def)
  have cl: "list_all (clean_entry (get_redirect_ip scenario_object)) [''a.com'', ''b.com'']"
    unfolding scenario_object_facts by (rule scenario_clean)
  have m: "\<forall>l\<in>set (readlines (universal_newlines (hosts_file ?w))). \<not> has_marker l"
    by (simp add: has_marker_def MARKER_START_def MARKER_END_def)
  have r: "CR \<notin> set (hosts_file ?w)" by simp
  from activate_deactivate_roundtrip[OF f(1,2) u f(3) scenario_object_facts(2) cl] m r
  have "hosts_file (snd (deactivate (snd (activate (Object scenario_object) ?w)))) = hosts_file ?w @ [LF]"
    and "lock_file (snd (deactivate (snd (activate (Object scenario_object) ?w)))) = None"
    by blast+
  then show ?thesis unfolding h scenario_config_object by simp
qed

theorem roundtrip_not_empty_counterexample:
  "hosts_file scenario_world = []
   \<and> hosts_file (snd (deactivate (snd (activate scenario_config scenario_world)))) \<noteq> []"
  by (simp add: activate_def deactivate_def scenario_world_def scenario_config_def is_active_def
      print_def read_hosts_def write_hosts_def writelines_def add_blocker_entries_def
      blocked_count_def get_active_duration_def
      remove_blocker_entries_def remove_step_def get_redirect_ip_def get_blocklist_def
      MARKER_START_def MARKER_END_def byte_def)











end
